theory Spec2Isabelle
  imports Main "HOL-Library.Multiset" "HOL-Library.Sublist"
begin

section \<open>Messages and configuration (main.c, lines 21-33)\<close>

text \<open>
  \<^verbatim>\<open>struct studentMessage { long msg_type; char studentName[50]; int rollNo; }\<close>.
  The two integer fields are modelled as \<open>int\<close>: the only arithmetic of the program is
  \<open>1001 + processedCount\<close> with \<open>processedCount < 3\<close> and the two loop counters, which
  stay below 4, so no machine integer wraps. The three configured names fit the
  50-byte buffer, so \<open>strcpy\<close> copies them whole.
\<close>

record studentMessage =
  msg_type :: int
  studentName :: string
  rollNo :: int

definition studentCount :: int where
  "studentCount = 3"

text \<open>The local array \<open>students\<close> of \<open>runFrontendProcess\<close>.\<close>

definition students :: "string list" where
  "students = [''Alice'', ''Bob'', ''Charlie'']"

text \<open>\<open>queueAttributes.mq_maxmsg\<close>, set in \<open>main\<close>.\<close>

definition mq_maxmsg :: nat where
  "mq_maxmsg = 10"


section \<open>The message queue as the workers see it\<close>

text \<open>
  The POSIX queue is the environment of the program. All messages are sent with
  priority 0, so the queue is first-in first-out: a list, the head the oldest message.
  The flag \<open>ok\<close> is the environment's choice whether the call fails (returns \<open>-1\<close>).
  The result \<open>None\<close> means that the call blocks in the present state (the queue was
  opened without \<open>O_NONBLOCK\<close>): sending to a full queue, receiving from an empty one.

  \<open>mq_send\<close> returns the new queue and the call's return value (\<open>0\<close> or \<open>-1\<close>);
  \<open>mq_receive\<close> returns the new queue and the message copied into the buffer, or
  no message when the call returned \<open>-1\<close>.
\<close>

definition mq_send ::
  "bool \<Rightarrow> studentMessage \<Rightarrow> studentMessage list \<Rightarrow> (studentMessage list \<times> int) option" where
  "mq_send ok m q =
     (if \<not> ok then Some (q, - 1)
      else if length q < mq_maxmsg then Some (q @ [m], 0)
      else None)"

definition mq_receive ::
  "bool \<Rightarrow> studentMessage list \<Rightarrow> (studentMessage list \<times> studentMessage option) option" where
  "mq_receive ok q =
     (if \<not> ok then Some (q, None)
      else (case q of [] \<Rightarrow> None | m # q' \<Rightarrow> Some (q', Some m)))"

text \<open>
  The six places of the source that call the queue. A step of a worker reports the
  transfers that succeeded, each as the calling place and the message that moved.
\<close>

datatype call =
    FrontendSend       \<comment> \<open>line 56\<close>
  | DatabaseReceive    \<comment> \<open>line 71\<close>
  | DatabaseRequeue    \<comment> \<open>line 78\<close>
  | DatabaseConfirm    \<comment> \<open>line 90\<close>
  | LoggerReceive      \<comment> \<open>line 105\<close>
  | LoggerRequeue      \<comment> \<open>line 112\<close>

type_synonym transfer = "call \<times> studentMessage"


section \<open>runFrontendProcess (lines 43-64)\<close>

text \<open>
  A worker is sequential code that stops only inside a queue call, so its state is the
  values of its variables and the call it stands at; a step runs it from one queue call
  to the next. \<open>sleep\<close> only delays the process, and of the console output only the
  lines that report an assigned identifier (line 88) and a logged confirmation
  (line 116) are kept. The frontend stands at the \<open>mq_send\<close> of line 56 with the
  message built in lines 49-51, or has exited.
\<close>

datatype fe_pc = FeSend studentMessage | FeExit int

record frontend =
  idx :: int
  fe_pc :: fe_pc

text \<open>The head of the \<open>for\<close> loop: build the next message, or leave the loop and \<open>exit(0)\<close>.\<close>

definition frontend_loop :: "int \<Rightarrow> frontend" where
  "frontend_loop i =
     (if i < studentCount
      then \<lparr>idx = i,
            fe_pc = FeSend \<lparr>msg_type = 1, studentName = students ! nat i, rollNo = 0\<rparr>\<rparr>
      else \<lparr>idx = i, fe_pc = FeExit 0\<rparr>)"

definition runFrontendProcess :: frontend where
  "runFrontendProcess = frontend_loop 0"

definition frontend_step ::
  "bool \<Rightarrow> studentMessage list \<Rightarrow> frontend \<Rightarrow> studentMessage list \<times> frontend \<times> transfer list" where
  "frontend_step ok q f =
     (case fe_pc f of
        FeSend msg \<Rightarrow>
          (case mq_send ok msg q of
             None \<Rightarrow> (q, f, [])
           | Some (q', r) \<Rightarrow>
               if r = - 1 then (q', f\<lparr>fe_pc := FeExit 1\<rparr>, [])  \<comment> \<open>lines 56-59\<close>
               else (q', frontend_loop (idx f + 1), [(FrontendSend, msg)]))
      | FeExit c \<Rightarrow> (q, f, []))"


section \<open>runDatabaseProcess (lines 66-98)\<close>

text \<open>
  The database process stands at the \<open>mq_receive\<close> of line 71, at the requeueing
  \<open>mq_send\<close> of line 78 with the message it took, at the confirming \<open>mq_send\<close> of
  line 90 with the message it rewrote, or has exited. \<open>assigned\<close> is what line 88
  printed so far: the name and the identifier of each registration.
\<close>

datatype db_pc =
    DbReceive
  | DbRequeue studentMessage
  | DbConfirm studentMessage
  | DbExit int

record database =
  processedCount :: int
  db_pc :: db_pc
  assigned :: "(string \<times> int) list"

text \<open>The head of the \<open>while\<close> loop (line 70), and the \<open>exit(0)\<close> after it.\<close>

definition database_loop :: "database \<Rightarrow> database" where
  "database_loop d =
     (if processedCount d < studentCount then d\<lparr>db_pc := DbReceive\<rparr>
      else d\<lparr>db_pc := DbExit 0\<rparr>)"

definition runDatabaseProcess :: database where
  "runDatabaseProcess = database_loop \<lparr>processedCount = 0, db_pc = DbReceive, assigned = []\<rparr>"

definition database_step ::
  "bool \<Rightarrow> studentMessage list \<Rightarrow> database \<Rightarrow> studentMessage list \<times> database \<times> transfer list" where
  "database_step ok q d =
     (case db_pc d of
        DbReceive \<Rightarrow>
          (case mq_receive ok q of
             None \<Rightarrow> (q, d, [])
           | Some (q', None) \<Rightarrow> (q', d\<lparr>db_pc := DbExit 1\<rparr>, [])  \<comment> \<open>lines 71-74\<close>
           | Some (q', Some msg) \<Rightarrow>
               if msg_type msg \<noteq> 1  \<comment> \<open>line 77\<close>
               then (q', d\<lparr>db_pc := DbRequeue msg\<rparr>, [(DatabaseReceive, msg)])
               else  \<comment> \<open>lines 82-88\<close>
                 (let msg' = msg\<lparr>msg_type := 2, rollNo := 1001 + processedCount d\<rparr>
                  in (q',
                      d\<lparr>db_pc := DbConfirm msg',
                        assigned := assigned d @ [(studentName msg', rollNo msg')]\<rparr>,
                      [(DatabaseReceive, msg)])))
      | DbRequeue msg \<Rightarrow>
          (case mq_send ok msg q of
             None \<Rightarrow> (q, d, [])
           | Some (q', r) \<Rightarrow>  \<comment> \<open>lines 78-79: \<open>r\<close> is not looked at, \<open>continue\<close>\<close>
               (q', database_loop d, if r = 0 then [(DatabaseRequeue, msg)] else []))
      | DbConfirm msg \<Rightarrow>
          (case mq_send ok msg q of
             None \<Rightarrow> (q, d, [])
           | Some (q', r) \<Rightarrow>
               if r = - 1 then (q', d\<lparr>db_pc := DbExit 1\<rparr>, [])  \<comment> \<open>lines 90-93\<close>
               else (q', database_loop (d\<lparr>processedCount := processedCount d + 1\<rparr>),
                     [(DatabaseConfirm, msg)]))
      | DbExit c \<Rightarrow> (q, d, []))"


section \<open>runLoggerProcess (lines 100-120)\<close>

text \<open>
  The logger stands at the \<open>mq_receive\<close> of line 105, at the requeueing \<open>mq_send\<close>
  of line 112, or has exited. \<open>logged\<close> is what line 116 printed so far: the identifier
  and the name of each confirmation.
\<close>

datatype lg_pc =
    LgReceive
  | LgRequeue studentMessage
  | LgExit int

record logger =
  loggedCount :: int
  lg_pc :: lg_pc
  logged :: "(int \<times> string) list"

definition logger_loop :: "logger \<Rightarrow> logger" where
  "logger_loop l =
     (if loggedCount l < studentCount then l\<lparr>lg_pc := LgReceive\<rparr>
      else l\<lparr>lg_pc := LgExit 0\<rparr>)"

definition runLoggerProcess :: logger where
  "runLoggerProcess = logger_loop \<lparr>loggedCount = 0, lg_pc = LgReceive, logged = []\<rparr>"

definition logger_step ::
  "bool \<Rightarrow> studentMessage list \<Rightarrow> logger \<Rightarrow> studentMessage list \<times> logger \<times> transfer list" where
  "logger_step ok q l =
     (case lg_pc l of
        LgReceive \<Rightarrow>
          (case mq_receive ok q of
             None \<Rightarrow> (q, l, [])
           | Some (q', None) \<Rightarrow> (q', l\<lparr>lg_pc := LgExit 1\<rparr>, [])  \<comment> \<open>lines 105-108\<close>
           | Some (q', Some msg) \<Rightarrow>
               if msg_type msg \<noteq> 2  \<comment> \<open>line 111\<close>
               then (q', l\<lparr>lg_pc := LgRequeue msg\<rparr>, [(LoggerReceive, msg)])
               else (q',  \<comment> \<open>lines 116-117\<close>
                     logger_loop (l\<lparr>logged := logged l @ [(rollNo msg, studentName msg)],
                                     loggedCount := loggedCount l + 1\<rparr>),
                     [(LoggerReceive, msg)]))
      | LgRequeue msg \<Rightarrow>
          (case mq_send ok msg q of
             None \<Rightarrow> (q, l, [])
           | Some (q', r) \<Rightarrow>  \<comment> \<open>lines 112-113: \<open>r\<close> is not looked at, \<open>continue\<close>\<close>
               (q', logger_loop l, if r = 0 then [(LoggerRequeue, msg)] else []))
      | LgExit c \<Rightarrow> (q, l, []))"


section \<open>The three processes on one queue\<close>

text \<open>
  After the three \<open>fork\<close>s the workers run concurrently and share nothing but the
  queue. A run is an interleaving of their steps: each event names the worker that
  moves and says whether its queue call succeeds. A worker that is blocked or has
  exited does not move. Time is not part of the state: the schedules range over every
  relative speed of the three processes, the ones that the \<open>sleep\<close>s make unlikely
  too. \<open>hist\<close> is not a variable of the program: it collects the transfers of the
  run in order, so that claims about what was sent can be stated.
\<close>

datatype worker = Frontend | Database | Logger

record pipeline =
  queue :: "studentMessage list"
  fe :: frontend
  db :: database
  lg :: logger
  hist :: "transfer list"

type_synonym event = "worker \<times> bool"

text \<open>The state after \<open>mq_open\<close> created the queue, new and so empty, and the workers
  were started.\<close>

definition started :: pipeline where
  "started = \<lparr>queue = [], fe = runFrontendProcess, db = runDatabaseProcess,
              lg = runLoggerProcess, hist = []\<rparr>"

fun step :: "pipeline \<Rightarrow> event \<Rightarrow> pipeline" where
  "step s (Frontend, ok) =
     (case frontend_step ok (queue s) (fe s) of
        (q, f, ts) \<Rightarrow> s\<lparr>queue := q, fe := f, hist := hist s @ ts\<rparr>)"
| "step s (Database, ok) =
     (case database_step ok (queue s) (db s) of
        (q, d, ts) \<Rightarrow> s\<lparr>queue := q, db := d, hist := hist s @ ts\<rparr>)"
| "step s (Logger, ok) =
     (case logger_step ok (queue s) (lg s) of
        (q, l, ts) \<Rightarrow> s\<lparr>queue := q, lg := l, hist := hist s @ ts\<rparr>)"

definition exec :: "event list \<Rightarrow> pipeline" where
  "exec es = foldl step started es"

text \<open>The messages a call place moved, in order.\<close>

definition moved :: "call \<Rightarrow> transfer list \<Rightarrow> studentMessage list" where
  "moved c ts = map snd (filter (\<lambda>t. fst t = c) ts)"

text \<open>Every message that was put on the queue, by any of the four sending places.\<close>

definition placed :: "transfer list \<Rightarrow> studentMessage list" where
  "placed ts =
     map snd (filter (\<lambda>t. fst t \<in> {FrontendSend, DatabaseRequeue, DatabaseConfirm, LoggerRequeue}) ts)"

text \<open>The exit status of each worker, \<open>None\<close> while it runs.\<close>

definition frontend_exit :: "frontend \<Rightarrow> int option" where
  "frontend_exit f = (case fe_pc f of FeExit c \<Rightarrow> Some c | _ \<Rightarrow> None)"

definition database_exit :: "database \<Rightarrow> int option" where
  "database_exit d = (case db_pc d of DbExit c \<Rightarrow> Some c | _ \<Rightarrow> None)"

definition logger_exit :: "logger \<Rightarrow> int option" where
  "logger_exit l = (case lg_pc l of LgExit c \<Rightarrow> Some c | _ \<Rightarrow> None)"

definition exits :: "pipeline \<Rightarrow> worker \<Rightarrow> int option" where
  "exits s w =
     (case w of
        Frontend \<Rightarrow> frontend_exit (fe s)
      | Database \<Rightarrow> database_exit (db s)
      | Logger \<Rightarrow> logger_exit (lg s))"


section \<open>main (lines 122-187)\<close>

text \<open>
  The coordinator is sequential; what it meets is the outcome of each call it makes.
  In \<open>lifecycle\<close> a field is \<open>False\<close> when the call returned \<open>-1\<close> (for \<open>fork\<close>, a
  negative pid). The second argument of \<open>main\<close> gives the exit status of each child,
  \<open>None\<close> for a child that never terminates. \<open>wait(NULL)\<close> returns once per terminated
  child and passes no status on; with a child that never terminates the parent stays
  in \<open>wait\<close> and has no exit status (\<open>None\<close>). The first component of the result is the
  sequence of calls made, the \<open>wait\<close> that the parent stays in included; the second is
  the exit status.

  \<open>action\<close> names the calls of the program on the queue and on its processes. The
  coordinator makes the first five; \<open>MqSend\<close> and \<open>MqReceive\<close> are the calls of the
  workers.
\<close>

datatype action = MqUnlink | MqOpen nat | Fork worker | Wait | MqClose | MqSend | MqReceive

record lifecycle =
  stale_unlink_ok :: bool
  open_ok :: bool
  fork_ok :: "worker \<Rightarrow> bool"
  close_ok :: bool
  unlink_ok :: bool

definition main :: "lifecycle \<Rightarrow> (worker \<Rightarrow> int option) \<Rightarrow> action list \<times> int option" where
  "main c status =
     (if \<not> open_ok c then ([MqUnlink, MqOpen mq_maxmsg], Some 1)
      else if \<not> fork_ok c Frontend then
        ([MqUnlink, MqOpen mq_maxmsg, Fork Frontend], Some 1)
      else if \<not> fork_ok c Database then
        ([MqUnlink, MqOpen mq_maxmsg, Fork Frontend, Fork Database], Some 1)
      else if \<not> fork_ok c Logger then
        ([MqUnlink, MqOpen mq_maxmsg, Fork Frontend, Fork Database, Fork Logger], Some 1)
      else
        (let n = length (filter (\<lambda>w. status w \<noteq> None) [Frontend, Database, Logger]);
             t = [MqUnlink, MqOpen mq_maxmsg, Fork Frontend, Fork Database, Fork Logger]
         in if n < 3 then (t @ replicate (n + 1) Wait, None)
            else if \<not> close_ok c then (t @ [Wait, Wait, Wait, MqClose], Some 1)
            else if \<not> unlink_ok c then (t @ [Wait, Wait, Wait, MqClose, MqUnlink], Some 1)
            else (t @ [Wait, Wait, Wait, MqClose, MqUnlink], Some 0)))"

text \<open>The calls of a run in which nothing fails and every child terminates.\<close>

definition full_lifecycle :: "action list" where
  "full_lifecycle =
     [MqUnlink, MqOpen mq_maxmsg, Fork Frontend, Fork Database, Fork Logger,
      Wait, Wait, Wait, MqClose, MqUnlink]"

text \<open>A run in which no call of the coordinator fails.\<close>

definition all_ok :: lifecycle where
  "all_ok = \<lparr>stale_unlink_ok = True, open_ok = True, fork_ok = (\<lambda>w. True),
             close_ok = True, unlink_ok = True\<rparr>"

text \<open>
  The call that a worker stands at, \<open>None\<close> once it has exited: line 56 for the
  frontend; lines 71, 78 and 90 for the database process; lines 105 and 112 for the
  logger. These are all the calls that the three functions make on the queue.
\<close>

definition frontend_call :: "frontend \<Rightarrow> action option" where
  "frontend_call f = (case fe_pc f of FeSend m \<Rightarrow> Some MqSend | FeExit c \<Rightarrow> None)"

definition database_call :: "database \<Rightarrow> action option" where
  "database_call d =
     (case db_pc d of
        DbReceive \<Rightarrow> Some MqReceive
      | DbRequeue m \<Rightarrow> Some MqSend
      | DbConfirm m \<Rightarrow> Some MqSend
      | DbExit c \<Rightarrow> None)"

definition logger_call :: "logger \<Rightarrow> action option" where
  "logger_call l =
     (case lg_pc l of
        LgReceive \<Rightarrow> Some MqReceive
      | LgRequeue m \<Rightarrow> Some MqSend
      | LgExit c \<Rightarrow> None)"

definition worker_call :: "pipeline \<Rightarrow> worker \<Rightarrow> action option" where
  "worker_call s w =
     (case w of
        Frontend \<Rightarrow> frontend_call (fe s)
      | Database \<Rightarrow> database_call (db s)
      | Logger \<Rightarrow> logger_call (lg s))"


section \<open>Invariants of a run\<close>

text \<open>The message of lines 49-51 for a name, and the message of lines 85-86 for a
  name and its identifier.\<close>

definition submission :: "string \<Rightarrow> studentMessage" where
  "submission n = \<lparr>msg_type = 1, studentName = n, rollNo = 0\<rparr>"

definition confirmation :: "string \<times> int \<Rightarrow> studentMessage" where
  "confirmation p = \<lparr>msg_type = 2, studentName = fst p, rollNo = snd p\<rparr>"

definition frontend_inv :: "pipeline \<Rightarrow> bool" where
  "frontend_inv s \<longleftrightarrow>
     0 \<le> idx (fe s) \<and> idx (fe s) \<le> 3 \<and>
     moved FrontendSend (hist s) = map submission (take (nat (idx (fe s))) students) \<and>
     (case fe_pc (fe s) of
        FeSend m \<Rightarrow> idx (fe s) < 3 \<and> m = submission (students ! nat (idx (fe s)))
      | FeExit c \<Rightarrow> (c = 0 \<and> idx (fe s) = 3) \<or> (c = 1 \<and> idx (fe s) < 3))"

definition database_inv :: "pipeline \<Rightarrow> bool" where
  "database_inv s \<longleftrightarrow>
     0 \<le> processedCount (db s) \<and> processedCount (db s) \<le> 3 \<and>
     nat (processedCount (db s)) \<le> length (assigned (db s)) \<and>
     map snd (assigned (db s)) = map (\<lambda>k. 1001 + int k) [0..<length (assigned (db s))] \<and>
     map fst (assigned (db s)) =
       map studentName (filter (\<lambda>m. msg_type m = 1) (moved DatabaseReceive (hist s))) \<and>
     moved DatabaseConfirm (hist s) =
       map confirmation (take (nat (processedCount (db s))) (assigned (db s))) \<and>
     (case db_pc (db s) of
        DbReceive \<Rightarrow>
          processedCount (db s) < 3 \<and> length (assigned (db s)) = nat (processedCount (db s))
      | DbRequeue m \<Rightarrow>
          processedCount (db s) < 3 \<and> length (assigned (db s)) = nat (processedCount (db s)) \<and>
          msg_type m \<noteq> 1 \<and> m \<in> set (moved DatabaseReceive (hist s))
      | DbConfirm m \<Rightarrow>
          processedCount (db s) < 3 \<and>
          length (assigned (db s)) = nat (processedCount (db s)) + 1 \<and>
          m = confirmation (last (assigned (db s)))
      | DbExit c \<Rightarrow>
          (c = 0 \<and> processedCount (db s) = 3 \<and> length (assigned (db s)) = 3) \<or>
          (c = 1 \<and> processedCount (db s) < 3))"

definition logger_inv :: "pipeline \<Rightarrow> bool" where
  "logger_inv s \<longleftrightarrow>
     0 \<le> loggedCount (lg s) \<and> loggedCount (lg s) \<le> 3 \<and>
     length (logged (lg s)) = nat (loggedCount (lg s)) \<and>
     (case lg_pc (lg s) of
        LgReceive \<Rightarrow> loggedCount (lg s) < 3
      | LgRequeue m \<Rightarrow> loggedCount (lg s) < 3 \<and> msg_type m \<noteq> 2
      | LgExit c \<Rightarrow> (c = 0 \<and> loggedCount (lg s) = 3) \<or> (c = 1 \<and> loggedCount (lg s) < 3))"


text \<open>
  The messages that a worker took for requeueing and has not sent back yet, what line 116
  prints of a message, and the invariants of the traffic: every message on the queue
  was first sent by the frontend (line 56) or by the database process (line 90);
  confirmations that are under way or logged were sent, submissions that are under way
  or assigned an identifier were sent, each as often; and while the database process
  takes none of its own confirmations back, the logger meets them in the order sent.
\<close>

definition held :: "pipeline \<Rightarrow> studentMessage list" where
  "held s =
     (case db_pc (db s) of DbRequeue m \<Rightarrow> [m] | _ \<Rightarrow> []) @
     (case lg_pc (lg s) of LgRequeue m \<Rightarrow> [m] | _ \<Rightarrow> [])"

definition record_of :: "studentMessage \<Rightarrow> int \<times> string" where
  "record_of m = (rollNo m, studentName m)"

definition origin_inv :: "pipeline \<Rightarrow> bool" where
  "origin_inv s \<longleftrightarrow>
     set (queue s) \<union> set (held s) \<union> set (placed (hist s)) \<subseteq>
       set (moved FrontendSend (hist s)) \<union> set (moved DatabaseConfirm (hist s))"

definition confirmation_flow :: "pipeline \<Rightarrow> bool" where
  "confirmation_flow s \<longleftrightarrow>
     mset (map record_of (filter (\<lambda>m. msg_type m = 2) (queue s @ held s))) + mset (logged (lg s))
       \<subseteq># mset (map record_of (moved DatabaseConfirm (hist s)))"

definition submission_flow :: "pipeline \<Rightarrow> bool" where
  "submission_flow s \<longleftrightarrow>
     mset (map studentName (filter (\<lambda>m. msg_type m = 1) (queue s @ held s))) +
     mset (map fst (assigned (db s)))
       \<subseteq># mset (map studentName (moved FrontendSend (hist s)))"

definition order_inv :: "pipeline \<Rightarrow> bool" where
  "order_inv s \<longleftrightarrow>
     ((\<forall>m \<in> set (moved DatabaseReceive (hist s)). msg_type m \<noteq> 2) \<longrightarrow>
        map record_of (moved DatabaseConfirm (hist s)) =
          logged (lg s) @ map record_of (filter (\<lambda>m. msg_type m = 2) (queue s)))"


section \<open>Some runs\<close>

text \<open>
  Messages and schedules used to run the model on concrete inputs: a submission and a
  message of neither tag; the run in which each worker in turn does all its work; the
  run in which the logger's first receive fails; the run in which the logger's
  requeueing send fails; and a run without failure in which the database process takes
  its first confirmation back off the queue.
\<close>

definition alice :: studentMessage where
  "alice = \<lparr>msg_type = 1, studentName = ''Alice'', rollNo = 0\<rparr>"

definition stray :: studentMessage where
  "stray = \<lparr>msg_type = 7, studentName = ''Alice'', rollNo = 0\<rparr>"

definition orderly :: "event list" where
  "orderly = replicate 3 (Frontend, True) @ replicate 6 (Database, True) @ replicate 3 (Logger, True)"

definition logger_fails_first :: "event list" where
  "logger_fails_first = (Logger, False) # replicate 3 (Frontend, True) @ replicate 6 (Database, True)"

definition requeue_fails :: "event list" where
  "requeue_fails = [(Frontend, True), (Logger, True), (Logger, False)]"



section \<open>Steps of a run, case by case\<close>

text \<open>What a step of each worker can do, and so what a step of the pipeline can do:
  the cases that the invariants are checked against.\<close>

lemma exec_Nil: "exec [] = started" by (simp add: exec_def)
lemma exec_snoc: "exec (es @ [e]) = step (exec es) e" by (simp add: exec_def)

lemma exec_invariant:
  assumes "P started" and "\<And>s e. P s \<Longrightarrow> P (step s e)"
  shows "P (exec es)"
proof (induction es rule: rev_induct)
  case Nil
  show ?case using assms(1) by (simp add: exec_Nil)
next
  case (snoc e es)
  then show ?case using assms(2) by (simp add: exec_snoc)
qed

lemma frontend_step_cases:
  assumes "frontend_step ok q f = (q', f', ts)"
  obtains (idle) "q' = q" "f' = f" "ts = []"
  | (failed) m where "fe_pc f = FeSend m" "q' = q" "f' = f\<lparr>fe_pc := FeExit 1\<rparr>" "ts = []"
  | (sent) m where "fe_pc f = FeSend m" "q' = q @ [m]" "f' = frontend_loop (idx f + 1)"
      "ts = [(FrontendSend, m)]" "length q < mq_maxmsg"
  using assms
  by (auto simp: frontend_step_def mq_send_def split: fe_pc.splits if_splits)

lemma database_step_cases:
  assumes "database_step ok q d = (q', d', ts)"
  obtains (idle) "q' = q" "d' = d" "ts = []"
  | (failed) "db_pc d = DbReceive \<or> (\<exists>m. db_pc d = DbConfirm m)" "q' = q" "d' = d\<lparr>db_pc := DbExit 1\<rparr>" "ts = []"
  | (foreign) m where "db_pc d = DbReceive" "q = m # q'" "msg_type m \<noteq> 1"
      "d' = d\<lparr>db_pc := DbRequeue m\<rparr>" "ts = [(DatabaseReceive, m)]"
  | (accepted) m where "db_pc d = DbReceive" "q = m # q'" "msg_type m = 1"
      "d' = d\<lparr>db_pc := DbConfirm \<lparr>msg_type = 2, studentName = studentName m, rollNo = 1001 + processedCount d\<rparr>,
               assigned := assigned d @ [(studentName m, 1001 + processedCount d)]\<rparr>"
      "ts = [(DatabaseReceive, m)]"
  | (requeued) m where "db_pc d = DbRequeue m" "q' = q @ [m]" "d' = database_loop d"
      "ts = [(DatabaseRequeue, m)]"
  | (dropped) m where "db_pc d = DbRequeue m" "q' = q" "d' = database_loop d" "ts = []"
  | (confirmed) m where "db_pc d = DbConfirm m" "q' = q @ [m]"
      "d' = database_loop (d\<lparr>processedCount := processedCount d + 1\<rparr>)"
      "ts = [(DatabaseConfirm, m)]"
  using assms
  by (cases "db_pc d"; cases ok; cases q)
     (auto simp: database_step_def mq_send_def mq_receive_def Let_def split: if_splits)

lemma logger_step_cases:
  assumes "logger_step ok q l = (q', l', ts)"
  obtains (idle) "q' = q" "l' = l" "ts = []"
  | (failed) "lg_pc l = LgReceive" "q' = q" "l' = l\<lparr>lg_pc := LgExit 1\<rparr>" "ts = []"
  | (foreign) m where "lg_pc l = LgReceive" "q = m # q'" "msg_type m \<noteq> 2"
      "l' = l\<lparr>lg_pc := LgRequeue m\<rparr>" "ts = [(LoggerReceive, m)]"
  | (accepted) m where "lg_pc l = LgReceive" "q = m # q'" "msg_type m = 2"
      "l' = logger_loop (l\<lparr>logged := logged l @ [(rollNo m, studentName m)],
                             loggedCount := loggedCount l + 1\<rparr>)"
      "ts = [(LoggerReceive, m)]"
  | (requeued) m where "lg_pc l = LgRequeue m" "q' = q @ [m]" "l' = logger_loop l"
      "ts = [(LoggerRequeue, m)]"
  | (dropped) m where "lg_pc l = LgRequeue m" "q' = q" "l' = logger_loop l" "ts = []"
  using assms
  by (cases "lg_pc l"; cases ok; cases q)
     (auto simp: logger_step_def mq_send_def mq_receive_def Let_def split: if_splits)


lemma step_cases [case_names idle fe_failed fe_sent db_failed db_foreign db_accepted
    db_requeued db_dropped db_confirmed lg_failed lg_foreign lg_accepted lg_requeued lg_dropped]:
  obtains
    "step s e = s"
  | m where "fe_pc (fe s) = FeSend m" "step s e = s\<lparr>fe := (fe s)\<lparr>fe_pc := FeExit 1\<rparr>\<rparr>"
  | m where "fe_pc (fe s) = FeSend m"
      "step s e = s\<lparr>queue := queue s @ [m], fe := frontend_loop (idx (fe s) + 1),
                     hist := hist s @ [(FrontendSend, m)]\<rparr>"
  | "db_pc (db s) = DbReceive \<or> (\<exists>m. db_pc (db s) = DbConfirm m)"
      "step s e = s\<lparr>db := (db s)\<lparr>db_pc := DbExit 1\<rparr>\<rparr>"
  | m q' where "db_pc (db s) = DbReceive" "queue s = m # q'" "msg_type m \<noteq> 1"
      "step s e = s\<lparr>queue := q', db := (db s)\<lparr>db_pc := DbRequeue m\<rparr>,
                     hist := hist s @ [(DatabaseReceive, m)]\<rparr>"
  | m q' where "db_pc (db s) = DbReceive" "queue s = m # q'" "msg_type m = 1"
      "step s e = s\<lparr>queue := q',
         db := (db s)\<lparr>db_pc := DbConfirm \<lparr>msg_type = 2, studentName = studentName m,
                                              rollNo = 1001 + processedCount (db s)\<rparr>,
                       assigned := assigned (db s) @ [(studentName m, 1001 + processedCount (db s))]\<rparr>,
         hist := hist s @ [(DatabaseReceive, m)]\<rparr>"
  | m where "db_pc (db s) = DbRequeue m"
      "step s e = s\<lparr>queue := queue s @ [m], db := database_loop (db s),
                     hist := hist s @ [(DatabaseRequeue, m)]\<rparr>"
  | m where "db_pc (db s) = DbRequeue m" "step s e = s\<lparr>db := database_loop (db s)\<rparr>"
  | m where "db_pc (db s) = DbConfirm m"
      "step s e = s\<lparr>queue := queue s @ [m],
         db := database_loop ((db s)\<lparr>processedCount := processedCount (db s) + 1\<rparr>),
         hist := hist s @ [(DatabaseConfirm, m)]\<rparr>"
  | "lg_pc (lg s) = LgReceive" "step s e = s\<lparr>lg := (lg s)\<lparr>lg_pc := LgExit 1\<rparr>\<rparr>"
  | m q' where "lg_pc (lg s) = LgReceive" "queue s = m # q'" "msg_type m \<noteq> 2"
      "step s e = s\<lparr>queue := q', lg := (lg s)\<lparr>lg_pc := LgRequeue m\<rparr>,
                     hist := hist s @ [(LoggerReceive, m)]\<rparr>"
  | m q' where "lg_pc (lg s) = LgReceive" "queue s = m # q'" "msg_type m = 2"
      "step s e = s\<lparr>queue := q',
         lg := logger_loop ((lg s)\<lparr>logged := logged (lg s) @ [(rollNo m, studentName m)],
                                     loggedCount := loggedCount (lg s) + 1\<rparr>),
         hist := hist s @ [(LoggerReceive, m)]\<rparr>"
  | m where "lg_pc (lg s) = LgRequeue m"
      "step s e = s\<lparr>queue := queue s @ [m], lg := logger_loop (lg s),
                     hist := hist s @ [(LoggerRequeue, m)]\<rparr>"
  | m where "lg_pc (lg s) = LgRequeue m" "step s e = s\<lparr>lg := logger_loop (lg s)\<rparr>"
proof (cases e)
  case (Pair w ok)
  show ?thesis
  proof (cases w)
    case Frontend
    obtain q f ts where st: "frontend_step ok (queue s) (fe s) = (q, f, ts)"
      by (cases "frontend_step ok (queue s) (fe s)")
    then have s': "step s e = s\<lparr>queue := q, fe := f, hist := hist s @ ts\<rparr>"
      using Pair Frontend by simp
    from st show ?thesis
    proof (cases rule: frontend_step_cases)
      case idle
      with s' have "step s e = s" by simp
      then show ?thesis by (rule that(1))
    next
      case (failed m)
      with s' show ?thesis by (intro that(2) [of m]) simp_all
    next
      case (sent m)
      with s' show ?thesis by (intro that(3) [of m]) simp_all
    qed
  next
    case Database
    obtain q d ts where st: "database_step ok (queue s) (db s) = (q, d, ts)"
      by (cases "database_step ok (queue s) (db s)")
    then have s': "step s e = s\<lparr>queue := q, db := d, hist := hist s @ ts\<rparr>"
      using Pair Database by simp
    from st show ?thesis
    proof (cases rule: database_step_cases)
      case idle
      with s' have "step s e = s" by simp
      then show ?thesis by (rule that(1))
    next
      case failed
      with s' show ?thesis by (intro that(4)) simp_all
    next
      case (foreign m)
      with s' show ?thesis by (intro that(5) [of m q]) simp_all
    next
      case (accepted m)
      with s' show ?thesis by (intro that(6) [of m q]) simp_all
    next
      case (requeued m)
      with s' show ?thesis by (intro that(7) [of m]) simp_all
    next
      case (dropped m)
      with s' show ?thesis by (intro that(8) [of m]) simp_all
    next
      case (confirmed m)
      with s' show ?thesis by (intro that(9) [of m]) simp_all
    qed
  next
    case Logger
    obtain q l ts where st: "logger_step ok (queue s) (lg s) = (q, l, ts)"
      by (cases "logger_step ok (queue s) (lg s)")
    then have s': "step s e = s\<lparr>queue := q, lg := l, hist := hist s @ ts\<rparr>"
      using Pair Logger by simp
    from st show ?thesis
    proof (cases rule: logger_step_cases)
      case idle
      with s' have "step s e = s" by simp
      then show ?thesis by (rule that(1))
    next
      case failed
      with s' show ?thesis by (intro that(10)) simp_all
    next
      case (foreign m)
      with s' show ?thesis by (intro that(11) [of m q]) simp_all
    next
      case (accepted m)
      with s' show ?thesis by (intro that(12) [of m q]) simp_all
    next
      case (requeued m)
      with s' show ?thesis by (intro that(13) [of m]) simp_all
    next
      case (dropped m)
      with s' show ?thesis by (intro that(14) [of m]) simp_all
    qed
  qed
qed


section \<open>The invariants hold in every run\<close>

text \<open>Each invariant holds in \<open>started\<close> and is kept by every step, whoever moves and
  whether or not the queue call fails.\<close>

lemma moved_append [simp]: "moved c (ts @ us) = moved c ts @ moved c us"
  by (simp add: moved_def)

lemma moved_single [simp]: "moved c [(c', m)] = (if c' = c then [m] else [])"
  by (simp add: moved_def)

lemma moved_Nil [simp]: "moved c [] = []"
  by (simp add: moved_def)

lemma frontend_inv_started: "frontend_inv started"
  by (simp add: frontend_inv_def started_def runFrontendProcess_def frontend_loop_def
      studentCount_def students_def submission_def)

lemma frontend_inv_step: "frontend_inv s \<Longrightarrow> frontend_inv (step s e)"
proof (cases rule: step_cases [of s e])
  case (fe_sent m)
  assume inv: "frontend_inv s"
  with fe_sent have i: "0 \<le> idx (fe s)" "idx (fe s) < 3" and m: "m = submission (students ! nat (idx (fe s)))"
    and h: "moved FrontendSend (hist s) = map submission (take (nat (idx (fe s))) students)"
    by (simp_all add: frontend_inv_def)
  have n: "nat (idx (fe s) + 1) = Suc (nat (idx (fe s)))" using i by simp
  have l: "nat (idx (fe s)) < length students" using i by (simp add: students_def)
  show ?thesis
    using i m h l
    by (simp add: fe_sent frontend_inv_def frontend_loop_def studentCount_def n
        take_Suc_conv_app_nth submission_def)
qed (auto simp: frontend_inv_def split: fe_pc.splits)

lemma database_inv_started: "database_inv started"
  by (simp add: database_inv_def started_def runDatabaseProcess_def database_loop_def
      studentCount_def)

lemma logger_inv_started: "logger_inv started"
  by (simp add: logger_inv_def started_def runLoggerProcess_def logger_loop_def
      studentCount_def)

lemma logger_inv_step: "logger_inv s \<Longrightarrow> logger_inv (step s e)"
  by (cases rule: step_cases [of s e])
     (auto simp: logger_inv_def logger_loop_def studentCount_def split: lg_pc.splits)


lemma nat_succ: "0 \<le> i \<Longrightarrow> nat (i + 1) = Suc (nat i)"
  by simp

lemma map_take_last: "length xs = Suc n \<Longrightarrow> map f (take n xs) @ [f (last xs)] = map f xs"
proof -
  assume l: "length xs = Suc n"
  then have "xs \<noteq> []" by auto
  then have "butlast xs @ [last xs] = xs" by simp
  moreover have "butlast xs = take n xs" using l by (simp add: butlast_conv_take)
  ultimately have "take n xs @ [last xs] = xs" by simp
  then have "map f (take n xs @ [last xs]) = map f xs" by simp
  then show ?thesis by simp
qed

lemma database_inv_step: "database_inv s \<Longrightarrow> database_inv (step s e)"
proof (cases rule: step_cases [of s e])
  case (db_accepted m q')
  assume "database_inv s"
  then show ?thesis
    using db_accepted by (auto simp: database_inv_def confirmation_def)
next
  case (db_confirmed m)
  assume "database_inv s"
  then show ?thesis
    using db_confirmed
    by (auto simp: database_inv_def database_loop_def studentCount_def nat_succ
        map_take_last)
next
  case (db_requeued m)
  assume "database_inv s"
  then show ?thesis
    using db_requeued
    by (auto simp: database_inv_def database_loop_def studentCount_def)
next
  case (db_dropped m)
  assume "database_inv s"
  then show ?thesis
    using db_dropped
    by (auto simp: database_inv_def database_loop_def studentCount_def)
qed (auto simp: database_inv_def split: db_pc.splits)

lemma placed_append [simp]: "placed (ts @ us) = placed ts @ placed us"
  by (simp add: placed_def)

lemma placed_Nil [simp]: "placed [] = []"
  by (simp add: placed_def)

lemma placed_single [simp]:
  "placed [(c, m)] = (if c = DatabaseReceive \<or> c = LoggerReceive then [] else [m])"
  by (cases c) (simp_all add: placed_def)

lemma held_simps [simp]:
  "held (s\<lparr>queue := q\<rparr>) = held s"
  "held (s\<lparr>hist := h\<rparr>) = held s"
  "held (s\<lparr>fe := f\<rparr>) = held s"
  by (simp_all add: held_def)

lemma origin_inv_started: "origin_inv started"
  by (simp add: origin_inv_def started_def held_def runDatabaseProcess_def
      runLoggerProcess_def database_loop_def logger_loop_def studentCount_def)

lemma origin_inv_step: "origin_inv s \<Longrightarrow> origin_inv (step s e)"
  by (cases rule: step_cases [of s e])
     (auto simp: origin_inv_def held_def database_loop_def logger_loop_def
        split: db_pc.splits lg_pc.splits)

lemma pending_tags:
  assumes "frontend_inv s" "database_inv s"
  shows "fe_pc (fe s) = FeSend m \<Longrightarrow> msg_type m = 1"
    and "db_pc (db s) = DbConfirm m \<Longrightarrow> msg_type m = 2"
    and "db_pc (db s) = DbRequeue m \<Longrightarrow> msg_type m \<noteq> 1"
  using assms
  by (auto simp: frontend_inv_def database_inv_def submission_def confirmation_def)

lemma confirmation_flow_started: "confirmation_flow started"
  by (simp add: confirmation_flow_def started_def held_def runDatabaseProcess_def
      runLoggerProcess_def database_loop_def logger_loop_def studentCount_def)

lemma confirmation_flow_step:
  assumes "frontend_inv s" "database_inv s" "logger_inv s" "confirmation_flow s"
  shows "confirmation_flow (step s e)"
proof (cases rule: step_cases [of s e])
  case (fe_sent m)
  with pending_tags(1) [OF assms(1,2)] have "msg_type m = 1" by simp
  with assms(4) fe_sent show ?thesis
    by (simp add: confirmation_flow_def ac_simps)
next
  case (db_confirmed m)
  with pending_tags(2) [OF assms(1,2)] have "msg_type m = 2" by simp
  with assms(4) db_confirmed show ?thesis
    by (simp add: confirmation_flow_def held_def database_loop_def ac_simps)
next
  case (db_dropped m)
  have "mset (map record_of (filter (\<lambda>m. msg_type m = 2) (queue (step s e) @ held (step s e))))
          + mset (logged (lg (step s e)))
        \<subseteq># mset (map record_of (filter (\<lambda>m. msg_type m = 2) (queue s @ held s)))
          + mset (logged (lg s))"
    using db_dropped by (simp add: held_def database_loop_def)
  from this assms(4) have "mset (map record_of (filter (\<lambda>m. msg_type m = 2) (queue (step s e) @ held (step s e))))
          + mset (logged (lg (step s e)))
        \<subseteq># mset (map record_of (moved DatabaseConfirm (hist s)))"
    unfolding confirmation_flow_def by (rule subset_mset.order_trans)
  moreover have "hist (step s e) = hist s" using db_dropped by simp
  ultimately show ?thesis by (simp only: confirmation_flow_def)
next
  case (lg_dropped m)
  have "mset (map record_of (filter (\<lambda>m. msg_type m = 2) (queue (step s e) @ held (step s e))))
          + mset (logged (lg (step s e)))
        \<subseteq># mset (map record_of (filter (\<lambda>m. msg_type m = 2) (queue s @ held s)))
          + mset (logged (lg s))"
    using lg_dropped by (simp add: held_def logger_loop_def)
  from this assms(4) have "mset (map record_of (filter (\<lambda>m. msg_type m = 2) (queue (step s e) @ held (step s e))))
          + mset (logged (lg (step s e)))
        \<subseteq># mset (map record_of (moved DatabaseConfirm (hist s)))"
    unfolding confirmation_flow_def by (rule subset_mset.order_trans)
  moreover have "hist (step s e) = hist s" using lg_dropped by simp
  ultimately show ?thesis by (simp only: confirmation_flow_def)
qed (use assms(4) in \<open>auto simp: confirmation_flow_def held_def database_loop_def logger_loop_def
        record_of_def ac_simps add_mset_commute split: db_pc.splits lg_pc.splits\<close>)

lemma submission_flow_started: "submission_flow started"
  by (simp add: submission_flow_def started_def held_def runDatabaseProcess_def
      runLoggerProcess_def database_loop_def logger_loop_def studentCount_def)

lemma submission_flow_step:
  assumes "frontend_inv s" "database_inv s" "logger_inv s" "submission_flow s"
  shows "submission_flow (step s e)"
proof (cases rule: step_cases [of s e])
  case (fe_sent m)
  with pending_tags(1) [OF assms(1,2)] have "msg_type m = 1" by simp
  with assms(4) fe_sent show ?thesis
    by (simp add: submission_flow_def ac_simps)
next
  case (db_confirmed m)
  with pending_tags(2) [OF assms(1,2)] have "msg_type m = 2" by simp
  with assms(4) db_confirmed show ?thesis
    by (simp add: submission_flow_def held_def database_loop_def ac_simps)
next
  case (db_dropped m)
  have "mset (map studentName (filter (\<lambda>m. msg_type m = 1) (queue (step s e) @ held (step s e))))
          + mset (map fst (assigned (db (step s e))))
        \<subseteq># mset (map studentName (filter (\<lambda>m. msg_type m = 1) (queue s @ held s)))
          + mset (map fst (assigned (db s)))"
    using db_dropped by (simp add: held_def database_loop_def)
  from this assms(4) have "mset (map studentName (filter (\<lambda>m. msg_type m = 1) (queue (step s e) @ held (step s e))))
          + mset (map fst (assigned (db (step s e))))
        \<subseteq># mset (map studentName (moved FrontendSend (hist s)))"
    unfolding submission_flow_def by (rule subset_mset.order_trans)
  moreover have "hist (step s e) = hist s" using db_dropped by simp
  ultimately show ?thesis by (simp only: submission_flow_def)
next
  case (lg_dropped m)
  have "mset (map studentName (filter (\<lambda>m. msg_type m = 1) (queue (step s e) @ held (step s e))))
          + mset (map fst (assigned (db (step s e))))
        \<subseteq># mset (map studentName (filter (\<lambda>m. msg_type m = 1) (queue s @ held s)))
          + mset (map fst (assigned (db s)))"
    using lg_dropped by (simp add: held_def logger_loop_def)
  from this assms(4) have "mset (map studentName (filter (\<lambda>m. msg_type m = 1) (queue (step s e) @ held (step s e))))
          + mset (map fst (assigned (db (step s e))))
        \<subseteq># mset (map studentName (moved FrontendSend (hist s)))"
    unfolding submission_flow_def by (rule subset_mset.order_trans)
  moreover have "hist (step s e) = hist s" using lg_dropped by simp
  ultimately show ?thesis by (simp only: submission_flow_def)
qed (use assms(4) in \<open>auto simp: submission_flow_def held_def database_loop_def logger_loop_def
        ac_simps add_mset_commute split: db_pc.splits lg_pc.splits\<close>)

lemma order_inv_started: "order_inv started"
  by (simp add: order_inv_def started_def runLoggerProcess_def logger_loop_def studentCount_def)

lemma order_inv_step:
  assumes "frontend_inv s" "database_inv s" "logger_inv s" "order_inv s"
  shows "order_inv (step s e)"
proof (cases rule: step_cases [of s e])
  case (fe_sent m)
  with pending_tags(1) [OF assms(1,2)] have "msg_type m = 1" by simp
  with assms(4) fe_sent show ?thesis
    by (simp add: order_inv_def)
next
  case (db_confirmed m)
  with pending_tags(2) [OF assms(1,2)] have "msg_type m = 2" by simp
  with assms(4) db_confirmed show ?thesis
    by (simp add: order_inv_def)
next
  case (db_requeued m)
  with assms(2) have "m \<in> set (moved DatabaseReceive (hist s))"
    by (simp add: database_inv_def)
  with assms(4) db_requeued show ?thesis
    by (auto simp: order_inv_def database_loop_def)
next
  case (lg_requeued m)
  with assms(3) have "msg_type m \<noteq> 2"
    by (simp add: logger_inv_def)
  with assms(4) lg_requeued show ?thesis
    by (auto simp: order_inv_def logger_loop_def)
qed (use assms(4) in \<open>auto simp: order_inv_def logger_loop_def record_of_def\<close>)

lemma mset_subset_size_eq:
  assumes "A \<subseteq># B" "size B \<le> size A"
  shows "A = B"
proof -
  from assms(1) have b: "B = A + (B - A)" by simp
  then have "size B = size A + size (B - A)" by (metis size_union)
  with assms(2) have "size (B - A) = 0" by simp
  then have "B - A = {#}" by simp
  with b show ?thesis by simp
qed

lemma invariants:
  "frontend_inv (exec es) \<and> database_inv (exec es) \<and> logger_inv (exec es) \<and>
   origin_inv (exec es) \<and> confirmation_flow (exec es) \<and> submission_flow (exec es) \<and>
   order_inv (exec es)"
  by (rule exec_invariant)
     (simp_all add: frontend_inv_started database_inv_started logger_inv_started
        origin_inv_started confirmation_flow_started submission_flow_started
        order_inv_started frontend_inv_step database_inv_step logger_inv_step
        origin_inv_step confirmation_flow_step submission_flow_step order_inv_step)



section \<open>What a finished run has done\<close>

text \<open>A logger that has exited with status 0 has logged three confirmations, so three
  were sent, so three submissions were sent: the counts force the other two workers to
  have finished, and the inclusions of the traffic to be equalities.\<close>

lemma record_of_confirmation: "record_of (confirmation p) = (snd p, fst p)"
  by (simp add: record_of_def confirmation_def)

lemma logger_done:
  assumes "lg_pc (lg (exec es)) = LgExit 0"
  shows "length (logged (lg (exec es))) = 3"
    and "processedCount (db (exec es)) = 3"
    and "db_pc (db (exec es)) = DbExit 0"
    and "length (assigned (db (exec es))) = 3"
    and "moved DatabaseConfirm (hist (exec es)) = map confirmation (assigned (db (exec es)))"
    and "mset (logged (lg (exec es))) = mset (map (\<lambda>p. (snd p, fst p)) (assigned (db (exec es))))"
proof -
  let ?s = "exec es"
  have li: "logger_inv ?s" and di: "database_inv ?s" and cf: "confirmation_flow ?s"
    using invariants [of es] by simp_all
  from li assms show l3: "length (logged (lg ?s)) = 3"
    by (simp add: logger_inv_def)
  from di have c: "moved DatabaseConfirm (hist ?s) =
      map confirmation (take (nat (processedCount (db ?s))) (assigned (db ?s)))"
    and n: "0 \<le> processedCount (db ?s)" "processedCount (db ?s) \<le> 3"
      "nat (processedCount (db ?s)) \<le> length (assigned (db ?s))"
    by (simp_all add: database_inv_def)
  have "mset (logged (lg ?s)) \<subseteq>#
      mset (map record_of (filter (\<lambda>m. msg_type m = 2) (queue ?s @ held ?s))) + mset (logged (lg ?s))"
    by simp
  from this cf have sub: "mset (logged (lg ?s)) \<subseteq># mset (map record_of (moved DatabaseConfirm (hist ?s)))"
    unfolding confirmation_flow_def by (rule subset_mset.order_trans)
  then have "size (mset (logged (lg ?s))) \<le> size (mset (map record_of (moved DatabaseConfirm (hist ?s))))"
    by (rule size_mset_mono)
  with l3 c n have "3 \<le> nat (processedCount (db ?s))" by simp
  with n show p3: "processedCount (db ?s) = 3" by simp
  with di show "db_pc (db ?s) = DbExit 0" and a3: "length (assigned (db ?s)) = 3"
    by (auto simp: database_inv_def split: db_pc.splits)
  with c p3 show c': "moved DatabaseConfirm (hist ?s) = map confirmation (assigned (db ?s))"
    by simp
  have "size (mset (map record_of (moved DatabaseConfirm (hist ?s)))) \<le> size (mset (logged (lg ?s)))"
    using c' a3 l3 by simp
  with sub have "mset (logged (lg ?s)) = mset (map record_of (moved DatabaseConfirm (hist ?s)))"
    by (rule mset_subset_size_eq)
  then show "mset (logged (lg ?s)) = mset (map (\<lambda>p. (snd p, fst p)) (assigned (db ?s)))"
    by (simp add: c' record_of_confirmation comp_def)
qed

lemma database_done:
  assumes "length (assigned (db (exec es))) = 3"
  shows "fe_pc (fe (exec es)) = FeExit 0"
    and "moved FrontendSend (hist (exec es)) = map submission students"
    and "mset (map fst (assigned (db (exec es)))) = mset students"
    and "map snd (assigned (db (exec es))) = [1001, 1002, 1003]"
proof -
  let ?s = "exec es"
  have fi: "frontend_inv ?s" and di: "database_inv ?s" and sf: "submission_flow ?s"
    using invariants [of es] by simp_all
  from fi have h: "moved FrontendSend (hist ?s) = map submission (take (nat (idx (fe ?s))) students)"
    and i: "0 \<le> idx (fe ?s)" "idx (fe ?s) \<le> 3"
    by (simp_all add: frontend_inv_def)
  have n: "map studentName (map submission xs) = xs" for xs
    by (simp add: submission_def comp_def)
  have "mset (map fst (assigned (db ?s))) \<subseteq>#
      mset (map studentName (filter (\<lambda>m. msg_type m = 1) (queue ?s @ held ?s))) +
      mset (map fst (assigned (db ?s)))"
    by simp
  from this sf have sub: "mset (map fst (assigned (db ?s))) \<subseteq>#
      mset (map studentName (moved FrontendSend (hist ?s)))"
    unfolding submission_flow_def by (rule subset_mset.order_trans)
  then have "size (mset (map fst (assigned (db ?s)))) \<le>
      size (mset (map studentName (moved FrontendSend (hist ?s))))"
    by (rule size_mset_mono)
  with assms h have "3 \<le> nat (idx (fe ?s))" by (simp add: n students_def)
  with i have i3: "idx (fe ?s) = 3" by simp
  with fi show "fe_pc (fe ?s) = FeExit 0"
    by (auto simp: frontend_inv_def split: fe_pc.splits)
  from h i3 show h': "moved FrontendSend (hist ?s) = map submission students"
    by (simp add: students_def)
  have "size (mset (map studentName (moved FrontendSend (hist ?s)))) \<le>
      size (mset (map fst (assigned (db ?s))))"
    using h' assms by (simp add: students_def)
  with sub have "mset (map fst (assigned (db ?s))) =
      mset (map studentName (moved FrontendSend (hist ?s)))"
    by (rule mset_subset_size_eq)
  then show "mset (map fst (assigned (db ?s))) = mset students"
    by (simp only: h' n)
  from di assms show "map snd (assigned (db ?s)) = [1001, 1002, 1003]"
    by (simp add: database_inv_def numeral_3_eq_3 upt_rec)
qed

lemma exit_pcs:
  "exits s Frontend = Some c \<longleftrightarrow> fe_pc (fe s) = FeExit c"
  "exits s Database = Some c \<longleftrightarrow> db_pc (db s) = DbExit c"
  "exits s Logger = Some c \<longleftrightarrow> lg_pc (lg s) = LgExit c"
  by (auto simp: exits_def frontend_exit_def database_exit_def logger_exit_def
      split: fe_pc.splits db_pc.splits lg_pc.splits)

lemma confirmed_placed: "set (moved DatabaseConfirm ts) \<subseteq> set (placed ts)"
  and submitted_placed: "set (moved FrontendSend ts) \<subseteq> set (placed ts)"
  by (auto simp: moved_def placed_def)

lemma placed_messages:
  assumes "m \<in> set (placed (hist (exec es))) \<union> set (queue (exec es))"
  shows "(msg_type m = 1 \<and> rollNo m = 0 \<and> m \<in> set (moved FrontendSend (hist (exec es)))) \<or>
         (msg_type m = 2 \<and> 1001 \<le> rollNo m \<and> m \<in> set (moved DatabaseConfirm (hist (exec es))))"
proof -
  let ?s = "exec es"
  have fi: "frontend_inv ?s" and di: "database_inv ?s" and oi: "origin_inv ?s"
    using invariants [of es] by simp_all
  from oi assms consider "m \<in> set (moved FrontendSend (hist ?s))"
    | "m \<in> set (moved DatabaseConfirm (hist ?s))"
    by (auto simp: origin_inv_def)
  then show ?thesis
  proof cases
    case 1
    with fi have "m \<in> submission ` set (take (nat (idx (fe ?s))) students)"
      by (simp add: frontend_inv_def)
    then have "msg_type m = 1 \<and> rollNo m = 0" by (auto simp: submission_def)
    with 1 show ?thesis by simp
  next
    case 2
    with di obtain p where p: "p \<in> set (assigned (db ?s))" and m: "m = confirmation p"
      by (auto simp: database_inv_def dest: in_set_takeD)
    from p have "snd p \<in> set (map snd (assigned (db ?s)))" by simp
    also from di have "map snd (assigned (db ?s)) =
        map (\<lambda>k. 1001 + int k) [0..<length (assigned (db ?s))]"
      by (simp add: database_inv_def)
    finally have "1001 \<le> snd p" by auto
    with m 2 show ?thesis by (simp add: confirmation_def)
  qed
qed





section \<open>The calls of the coordinator and of the workers\<close>

text \<open>The coordinator reaches \<open>mq_close\<close> exactly when the queue was opened, the
  workers were started and all three have terminated; a worker stands at a send or a
  receive or has exited, and a step of it leaves the queue as it is, takes its head, or
  appends one message.\<close>

lemma worker_call_kinds: "worker_call s w \<in> {None, Some MqSend, Some MqReceive}"
  by (cases w)
     (auto simp: worker_call_def frontend_call_def database_call_def logger_call_def
        split: fe_pc.splits db_pc.splits lg_pc.splits)

lemma worker_step_effect:
  "(worker_call s w = None \<longrightarrow> step s (w, ok) = s) \<and>
   (worker_call s w = Some MqReceive \<longrightarrow>
      queue (step s (w, ok)) = queue s \<or> (\<exists>m. queue s = m # queue (step s (w, ok)))) \<and>
   (worker_call s w = Some MqSend \<longrightarrow>
      queue (step s (w, ok)) = queue s \<or> (\<exists>m. queue (step s (w, ok)) = queue s @ [m]))"
proof (cases w)
  case Frontend
  then show ?thesis
    by (auto simp: worker_call_def frontend_call_def frontend_step_def mq_send_def
        split: fe_pc.splits)
next
  case Database
  then show ?thesis
    by (cases "queue s")
       (auto simp: worker_call_def database_call_def database_step_def mq_send_def
          mq_receive_def Let_def split: db_pc.splits)
next
  case Logger
  then show ?thesis
    by (cases "queue s")
       (auto simp: worker_call_def logger_call_def logger_step_def mq_send_def
          mq_receive_def split: lg_pc.splits)
qed

lemma main_blocks:
  "MqClose \<in> set (fst (main c status)) \<longleftrightarrow>
     open_ok c \<and> fork_ok c Frontend \<and> fork_ok c Database \<and> fork_ok c Logger \<and>
     status Frontend \<noteq> None \<and> status Database \<noteq> None \<and> status Logger \<noteq> None"
  by (auto simp: main_def Let_def)

lemma main_prefix: "prefix (fst (main c status)) full_lifecycle"
  by (auto simp: main_def Let_def full_lifecycle_def prefix_def)

lemma main_waiting:
  "open_ok c \<and> fork_ok c Frontend \<and> fork_ok c Database \<and> fork_ok c Logger \<and>
   (status Frontend = None \<or> status Database = None \<or> status Logger = None) \<Longrightarrow>
     snd (main c status) = None \<and> last (fst (main c status)) = Wait"
  by (auto simp: main_def Let_def)

lemma main_complete:
  "open_ok c \<and> fork_ok c Frontend \<and> fork_ok c Database \<and> fork_ok c Logger \<and>
    status Frontend \<noteq> None \<and> status Database \<noteq> None \<and> status Logger \<noteq> None \<Longrightarrow>
      fst (main c status) = (if close_ok c then full_lifecycle else butlast full_lifecycle)"
  by (auto simp: main_def Let_def full_lifecycle_def)


section \<open>Evaluating runs\<close>

lemmas run_simps =
  exec_def started_def runFrontendProcess_def runDatabaseProcess_def
  runLoggerProcess_def frontend_loop_def database_loop_def logger_loop_def
  frontend_step_def database_step_def logger_step_def mq_send_def mq_receive_def
  studentCount_def students_def mq_maxmsg_def numeral_eq_Suc

lemma exec_orderly:
  "exec orderly =
     \<lparr>queue = [], fe = \<lparr>idx = 3, fe_pc = FeExit 0\<rparr>,
      db = \<lparr>processedCount = 3, db_pc = DbExit 0,
            assigned = [(''Alice'', 1001), (''Bob'', 1002), (''Charlie'', 1003)]\<rparr>,
      lg = \<lparr>loggedCount = 3, lg_pc = LgExit 0,
            logged = [(1001, ''Alice''), (1002, ''Bob''), (1003, ''Charlie'')]\<rparr>,
      hist =
        [(FrontendSend, \<lparr>msg_type = 1, studentName = ''Alice'', rollNo = 0\<rparr>),
         (FrontendSend, \<lparr>msg_type = 1, studentName = ''Bob'', rollNo = 0\<rparr>),
         (FrontendSend, \<lparr>msg_type = 1, studentName = ''Charlie'', rollNo = 0\<rparr>),
         (DatabaseReceive, \<lparr>msg_type = 1, studentName = ''Alice'', rollNo = 0\<rparr>),
         (DatabaseConfirm, \<lparr>msg_type = 2, studentName = ''Alice'', rollNo = 1001\<rparr>),
         (DatabaseReceive, \<lparr>msg_type = 1, studentName = ''Bob'', rollNo = 0\<rparr>),
         (DatabaseConfirm, \<lparr>msg_type = 2, studentName = ''Bob'', rollNo = 1002\<rparr>),
         (DatabaseReceive, \<lparr>msg_type = 1, studentName = ''Charlie'', rollNo = 0\<rparr>),
         (DatabaseConfirm, \<lparr>msg_type = 2, studentName = ''Charlie'', rollNo = 1003\<rparr>),
         (LoggerReceive, \<lparr>msg_type = 2, studentName = ''Alice'', rollNo = 1001\<rparr>),
         (LoggerReceive, \<lparr>msg_type = 2, studentName = ''Bob'', rollNo = 1002\<rparr>),
         (LoggerReceive, \<lparr>msg_type = 2, studentName = ''Charlie'', rollNo = 1003\<rparr>)]\<rparr>"
  by (simp add: orderly_def exec_def started_def runFrontendProcess_def runDatabaseProcess_def
      runLoggerProcess_def frontend_loop_def database_loop_def logger_loop_def
      frontend_step_def database_step_def logger_step_def mq_send_def mq_receive_def
      studentCount_def students_def mq_maxmsg_def numeral_3_eq_3 numeral_eq_Suc)




lemma exec_requeue_fails:
  "exec requeue_fails =
     \<lparr>queue = [],
      fe = \<lparr>idx = 1, fe_pc = FeSend \<lparr>msg_type = 1, studentName = ''Bob'', rollNo = 0\<rparr>\<rparr>,
      db = \<lparr>processedCount = 0, db_pc = DbReceive, assigned = []\<rparr>,
      lg = \<lparr>loggedCount = 0, lg_pc = LgReceive, logged = []\<rparr>,
      hist = [(FrontendSend, \<lparr>msg_type = 1, studentName = ''Alice'', rollNo = 0\<rparr>),
              (LoggerReceive, \<lparr>msg_type = 1, studentName = ''Alice'', rollNo = 0\<rparr>)]\<rparr>"
  by (simp add: requeue_fails_def run_simps)


section \<open>The claims\<close>

text \<open>
  C1. In a run in which all three workers exit with status 0, the frontend has sent
  exactly three messages, tagged 1, one per configured name in order; the database
  process has sent exactly three confirmations, tagged 2, with the identifiers 1001,
  1002, 1003 and each configured name once; and the logger has logged exactly three
  records, which are these three confirmations, each once. Messages are counted, not
  calls of \<open>mq_send\<close>: a message that a stage took off the queue and put back is the
  same message, and every message of either tag that was ever put on the queue, by a
  requeueing send too, is one of the three sent under that tag.
\<close>

theorem conservation:
  assumes "exits (exec es) Frontend = Some 0" "exits (exec es) Database = Some 0"
    "exits (exec es) Logger = Some 0"
  shows "map msg_type (moved FrontendSend (hist (exec es))) = [1, 1, 1] \<and>
         map studentName (moved FrontendSend (hist (exec es))) = students \<and>
         set (filter (\<lambda>m. msg_type m = 1) (placed (hist (exec es)))) =
           set (moved FrontendSend (hist (exec es))) \<and>
         map msg_type (moved DatabaseConfirm (hist (exec es))) = [2, 2, 2] \<and>
         map rollNo (moved DatabaseConfirm (hist (exec es))) = [1001, 1002, 1003] \<and>
         mset (map studentName (moved DatabaseConfirm (hist (exec es)))) = mset students \<and>
         set (filter (\<lambda>m. msg_type m = 2) (placed (hist (exec es)))) =
           set (moved DatabaseConfirm (hist (exec es))) \<and>
         length (logged (lg (exec es))) = 3 \<and>
         mset (logged (lg (exec es))) =
           mset (map record_of (moved DatabaseConfirm (hist (exec es)))) \<and>
         distinct (logged (lg (exec es)))"
proof -
  let ?s = "exec es"
  from assms(3) have l: "lg_pc (lg ?s) = LgExit 0" by (simp add: exit_pcs)
  note ld = logger_done [OF l]
  note dd = database_done [OF ld(4)]
  have sub: "map msg_type (moved FrontendSend (hist ?s)) = [1, 1, 1]"
      "map studentName (moved FrontendSend (hist ?s)) = students"
    by (simp_all add: dd(2) students_def submission_def)
  have ty: "map msg_type (moved DatabaseConfirm (hist ?s)) = map (\<lambda>p. 2) (assigned (db ?s))"
    and ro: "map rollNo (moved DatabaseConfirm (hist ?s)) = map snd (assigned (db ?s))"
    and na: "map studentName (moved DatabaseConfirm (hist ?s)) = map fst (assigned (db ?s))"
    and re: "map record_of (moved DatabaseConfirm (hist ?s)) =
        map (\<lambda>p. (snd p, fst p)) (assigned (db ?s))"
    by (simp_all add: ld(5) confirmation_def record_of_def comp_def)
  from ld(4) have ty': "map msg_type (moved DatabaseConfirm (hist ?s)) = [2, 2, 2]"
    unfolding ty by (simp add: map_replicate_const numeral_3_eq_3)
  have p1: "set (filter (\<lambda>m. msg_type m = 1) (placed (hist ?s))) = set (moved FrontendSend (hist ?s))"
  proof (intro equalityI subsetI)
    fix m assume "m \<in> set (filter (\<lambda>m. msg_type m = 1) (placed (hist ?s)))"
    then have "m \<in> set (placed (hist ?s)) \<union> set (queue ?s)" and "msg_type m = 1" by simp_all
    with placed_messages [of m es] show "m \<in> set (moved FrontendSend (hist ?s))" by simp
  next
    fix m assume m: "m \<in> set (moved FrontendSend (hist ?s))"
    with submitted_placed [of "hist ?s"] have "m \<in> set (placed (hist ?s))" by blast
    moreover from m have "msg_type m = 1" by (auto simp: dd(2) submission_def)
    ultimately show "m \<in> set (filter (\<lambda>m. msg_type m = 1) (placed (hist ?s)))" by simp
  qed
  have p2: "set (filter (\<lambda>m. msg_type m = 2) (placed (hist ?s))) = set (moved DatabaseConfirm (hist ?s))"
  proof (intro equalityI subsetI)
    fix m assume "m \<in> set (filter (\<lambda>m. msg_type m = 2) (placed (hist ?s)))"
    then have "m \<in> set (placed (hist ?s)) \<union> set (queue ?s)" and "msg_type m = 2" by simp_all
    with placed_messages [of m es] show "m \<in> set (moved DatabaseConfirm (hist ?s))" by simp
  next
    fix m assume m: "m \<in> set (moved DatabaseConfirm (hist ?s))"
    with confirmed_placed [of "hist ?s"] have "m \<in> set (placed (hist ?s))" by blast
    moreover from m have "msg_type m = 2" by (auto simp: ld(5) confirmation_def)
    ultimately show "m \<in> set (filter (\<lambda>m. msg_type m = 2) (placed (hist ?s)))" by simp
  qed
  have "distinct (map fst (logged (lg ?s)))"
  proof -
    have "image_mset fst (mset (logged (lg ?s))) =
        image_mset fst (mset (map (\<lambda>p. (snd p, fst p)) (assigned (db ?s))))"
      by (simp only: ld(6))
    then have "mset (map fst (logged (lg ?s))) = mset (map snd (assigned (db ?s)))"
      by (simp add: multiset.map_comp comp_def)
    then have "distinct (map fst (logged (lg ?s))) = distinct (map snd (assigned (db ?s)))"
      by (rule mset_eq_imp_distinct_iff)
    then show ?thesis by (simp add: dd(4))
  qed
  then have dl: "distinct (logged (lg ?s))" by (simp add: distinct_map)
  show ?thesis
    apply (intro conjI)
    subgoal by (rule sub(1))
    subgoal by (rule sub(2))
    subgoal by (rule p1)
    subgoal by (rule ty')
    subgoal by (simp only: ro dd(4))
    subgoal by (simp only: na dd(3))
    subgoal by (rule p2)
    subgoal by (rule ld(1))
    subgoal by (simp only: re ld(6))
    subgoal by (rule dl)
    done
qed

theorem conservation_witness:
  "exits (exec orderly) Frontend = Some 0 \<and> exits (exec orderly) Database = Some 0 \<and>
   exits (exec orderly) Logger = Some 0 \<and>
   map studentName (moved FrontendSend (hist (exec orderly))) = [''Alice'', ''Bob'', ''Charlie''] \<and>
   map rollNo (moved DatabaseConfirm (hist (exec orderly))) = [1001, 1002, 1003] \<and>
   length (logged (lg (exec orderly))) = 3 \<and>
   distinct (logged (lg (exec orderly)))"
proof -
  have e: "exits (exec orderly) Frontend = Some 0" "exits (exec orderly) Database = Some 0"
      "exits (exec orderly) Logger = Some 0"
    by (simp_all add: exec_orderly exit_pcs)
  from conservation [OF e] e show ?thesis by (simp add: students_def)
qed


text \<open>
  C3. A step in which the database process receives a message either finds
  \<open>msg_type = 1\<close> and goes on to confirm it with the next identifier, or finds any
  other tag and stands at the requeueing send with that message, nothing assigned and
  nothing counted. A step in which the logger receives a message either finds
  \<open>msg_type = 2\<close> and logs it, or finds any other tag and stands at the requeueing
  send, nothing logged and nothing counted.
\<close>

theorem tag_integrity:
  "(database_step ok q d = (q', d', ts) \<and> (DatabaseReceive, msg) \<in> set ts \<longrightarrow>
      (if msg_type msg = 1
       then db_pc d' = DbConfirm (msg\<lparr>msg_type := 2, rollNo := 1001 + processedCount d\<rparr>) \<and>
            assigned d' = assigned d @ [(studentName msg, 1001 + processedCount d)]
       else db_pc d' = DbRequeue msg \<and> assigned d' = assigned d \<and>
            processedCount d' = processedCount d)) \<and>
   (logger_step ok2 q2 l = (q2', l', ts2) \<and> (LoggerReceive, msg2) \<in> set ts2 \<longrightarrow>
      (if msg_type msg2 = 2
       then logged l' = logged l @ [(rollNo msg2, studentName msg2)] \<and>
            loggedCount l' = loggedCount l + 1
       else lg_pc l' = LgRequeue msg2 \<and> logged l' = logged l \<and>
            loggedCount l' = loggedCount l))"
proof (intro conjI impI)
  assume "database_step ok q d = (q', d', ts) \<and> (DatabaseReceive, msg) \<in> set ts"
  then have st: "database_step ok q d = (q', d', ts)" and r: "(DatabaseReceive, msg) \<in> set ts"
    by simp_all
  from st r show "if msg_type msg = 1
       then db_pc d' = DbConfirm (msg\<lparr>msg_type := 2, rollNo := 1001 + processedCount d\<rparr>) \<and>
            assigned d' = assigned d @ [(studentName msg, 1001 + processedCount d)]
       else db_pc d' = DbRequeue msg \<and> assigned d' = assigned d \<and>
            processedCount d' = processedCount d"
    by (cases rule: database_step_cases) (auto simp: database_loop_def)
next
  assume "logger_step ok2 q2 l = (q2', l', ts2) \<and> (LoggerReceive, msg2) \<in> set ts2"
  then have st: "logger_step ok2 q2 l = (q2', l', ts2)" and r: "(LoggerReceive, msg2) \<in> set ts2"
    by simp_all
  from st r show "if msg_type msg2 = 2
       then logged l' = logged l @ [(rollNo msg2, studentName msg2)] \<and>
            loggedCount l' = loggedCount l + 1
       else lg_pc l' = LgRequeue msg2 \<and> logged l' = logged l \<and>
            loggedCount l' = loggedCount l"
    by (cases rule: logger_step_cases) (auto simp: logger_loop_def)
qed

theorem tag_integrity_witness:
  "database_step True [alice] runDatabaseProcess =
     ([], \<lparr>processedCount = 0,
           db_pc = DbConfirm \<lparr>msg_type = 2, studentName = ''Alice'', rollNo = 1001\<rparr>,
           assigned = [(''Alice'', 1001)]\<rparr>, [(DatabaseReceive, alice)]) \<and>
   logger_step True [stray] runLoggerProcess =
     ([], \<lparr>loggedCount = 0, lg_pc = LgRequeue stray, logged = []\<rparr>, [(LoggerReceive, stray)])"
proof -
  let ?d = "\<lparr>processedCount = 0,
           db_pc = DbConfirm \<lparr>msg_type = 2, studentName = ''Alice'', rollNo = 1001\<rparr>,
           assigned = [(''Alice'', 1001)]\<rparr>"
  let ?l = "\<lparr>loggedCount = 0, lg_pc = LgRequeue stray, logged = []\<rparr>"
  have d: "database_step True [alice] runDatabaseProcess = ([], ?d, [(DatabaseReceive, alice)])"
    by (simp add: database_step_def mq_receive_def runDatabaseProcess_def database_loop_def
        studentCount_def alice_def)
  have l: "logger_step True [stray] runLoggerProcess = ([], ?l, [(LoggerReceive, stray)])"
    by (simp add: logger_step_def mq_receive_def runLoggerProcess_def logger_loop_def
        studentCount_def stray_def)
  from d l tag_integrity [of True "[alice]" runDatabaseProcess "[]" ?d
      "[(DatabaseReceive, alice)]" alice True "[stray]" runLoggerProcess "[]" ?l
      "[(LoggerReceive, stray)]" stray]
  show ?thesis by simp
qed

text \<open>
  C6. A stage at its receive that takes a message of a foreign tag stands at the
  requeueing send with exactly that message; when the send goes through, the queue has
  that message appended, unchanged, and the stage is in the very state it was in before
  the receive: at the receive again, its counter and its output as they were.
\<close>

theorem requeue_frame:
  "(msg_type msg \<noteq> 1 \<and> db_pc d = DbReceive \<and> processedCount d < studentCount \<longrightarrow>
      database_step True (msg # q) d =
        (q, d\<lparr>db_pc := DbRequeue msg\<rparr>, [(DatabaseReceive, msg)]) \<and>
      (length q' < mq_maxmsg \<longrightarrow>
         database_step True q' (d\<lparr>db_pc := DbRequeue msg\<rparr>) =
           (q' @ [msg], d, [(DatabaseRequeue, msg)]))) \<and>
   (msg_type msg \<noteq> 2 \<and> lg_pc l = LgReceive \<and> loggedCount l < studentCount \<longrightarrow>
      logger_step True (msg # q) l =
        (q, l\<lparr>lg_pc := LgRequeue msg\<rparr>, [(LoggerReceive, msg)]) \<and>
      (length q' < mq_maxmsg \<longrightarrow>
         logger_step True q' (l\<lparr>lg_pc := LgRequeue msg\<rparr>) =
           (q' @ [msg], l, [(LoggerRequeue, msg)])))"
proof -
  have d: "d\<lparr>db_pc := DbReceive\<rparr> = d" if "db_pc d = DbReceive" for d :: database
    using that by (cases d) simp
  have l: "l\<lparr>lg_pc := LgReceive\<rparr> = l" if "lg_pc l = LgReceive" for l :: logger
    using that by (cases l) simp
  show ?thesis
    by (simp add: database_step_def logger_step_def mq_receive_def mq_send_def
        database_loop_def logger_loop_def d l)
qed

theorem requeue_frame_witness:
  "database_step True [stray] runDatabaseProcess =
     ([], runDatabaseProcess\<lparr>db_pc := DbRequeue stray\<rparr>, [(DatabaseReceive, stray)]) \<and>
   database_step True [alice] (runDatabaseProcess\<lparr>db_pc := DbRequeue stray\<rparr>) =
     ([alice, stray], runDatabaseProcess, [(DatabaseRequeue, stray)]) \<and>
   logger_step True [alice] runLoggerProcess =
     ([], runLoggerProcess\<lparr>lg_pc := LgRequeue alice\<rparr>, [(LoggerReceive, alice)]) \<and>
   logger_step True [] (runLoggerProcess\<lparr>lg_pc := LgRequeue alice\<rparr>) =
     ([alice], runLoggerProcess, [(LoggerRequeue, alice)])"
proof -
  have h: "msg_type stray \<noteq> 1" "db_pc runDatabaseProcess = DbReceive"
      "processedCount runDatabaseProcess < studentCount" "length [alice] < mq_maxmsg"
      "msg_type alice \<noteq> 2" "lg_pc runLoggerProcess = LgReceive"
      "loggedCount runLoggerProcess < studentCount" "length ([] :: studentMessage list) < mq_maxmsg"
    by (simp_all add: stray_def alice_def runDatabaseProcess_def runLoggerProcess_def
        database_loop_def logger_loop_def studentCount_def mq_maxmsg_def)
  from h requeue_frame [of stray runDatabaseProcess "[]" "[alice]" runLoggerProcess]
    requeue_frame [of alice runDatabaseProcess "[]" "[]" runLoggerProcess]
  show ?thesis by simp
qed

text \<open>
  C4. The requeueing sends of lines 78 and 112 do not look at the return value of
  \<open>mq_send\<close>. In the run below the logger takes Alice's submission and its requeueing
  send fails: the logger does not exit but stands at its receive again, and the message
  is on no queue any more. The frontend, whose send of line 56 is checked, exits with
  status 1 when that send fails.
\<close>

theorem failed_requeue_not_fatal:
  "exec requeue_fails =
     \<lparr>queue = [],
      fe = \<lparr>idx = 1, fe_pc = FeSend \<lparr>msg_type = 1, studentName = ''Bob'', rollNo = 0\<rparr>\<rparr>,
      db = \<lparr>processedCount = 0, db_pc = DbReceive, assigned = []\<rparr>,
      lg = \<lparr>loggedCount = 0, lg_pc = LgReceive, logged = []\<rparr>,
      hist = [(FrontendSend, \<lparr>msg_type = 1, studentName = ''Alice'', rollNo = 0\<rparr>),
              (LoggerReceive, \<lparr>msg_type = 1, studentName = ''Alice'', rollNo = 0\<rparr>)]\<rparr> \<and>
   exits (exec requeue_fails) Logger = None \<and>
   exits (exec [(Frontend, False)]) Frontend = Some 1"
  by (simp add: requeue_fails_def run_simps exits_def logger_exit_def frontend_exit_def)

text \<open>
  C5, as stated, fails: in the run below the logger's first receive fails and the logger
  exits with status 1, nothing is ever logged, and \<open>main\<close> returns 0, since
  \<open>wait(NULL)\<close> drops the children's statuses.
\<close>

theorem exit_status_counterexample:
  "exits (exec logger_fails_first) Frontend = Some 0 \<and>
   exits (exec logger_fails_first) Database = Some 0 \<and>
   exits (exec logger_fails_first) Logger = Some 1 \<and>
   logged (lg (exec logger_fails_first)) = [] \<and>
   snd (main all_ok (exits (exec logger_fails_first))) = Some 0"
  by (simp add: logger_fails_first_def run_simps exits_def logger_exit_def frontend_exit_def
      database_exit_def main_def all_ok_def)

text \<open>
  C5, amended. \<open>main\<close> returns 0 exactly when the queue was opened, the three forks
  succeeded, the three children terminated (with whatever status), and both
  \<open>mq_close\<close> and the final \<open>mq_unlink\<close> succeeded.
\<close>

theorem exit_status:
  "snd (main c status) = Some 0 \<longleftrightarrow>
     open_ok c \<and> fork_ok c Frontend \<and> fork_ok c Database \<and> fork_ok c Logger \<and>
     status Frontend \<noteq> None \<and> status Database \<noteq> None \<and> status Logger \<noteq> None \<and>
     close_ok c \<and> unlink_ok c"
  by (simp add: main_def Let_def)

text \<open>
  C7. In every run, every message that was ever put on the queue, by any of the four
  sends of the source (the requeueing ones included), and every message on the queue
  now, has \<open>rollNo = 0\<close> if its tag is 1 and \<open>rollNo \<noteq> 0\<close> if its tag is 2.
\<close>

theorem tag_determines_id:
  "\<forall>m \<in> set (placed (hist (exec es))) \<union> set (queue (exec es)).
     (msg_type m = 1 \<longrightarrow> rollNo m = 0) \<and> (msg_type m = 2 \<longrightarrow> rollNo m \<noteq> 0)"
proof
  fix m
  assume "m \<in> set (placed (hist (exec es))) \<union> set (queue (exec es))"
  from placed_messages [OF this]
  show "(msg_type m = 1 \<longrightarrow> rollNo m = 0) \<and> (msg_type m = 2 \<longrightarrow> rollNo m \<noteq> 0)"
    by auto
qed

theorem tag_determines_id_witness:
  "alice \<in> set (placed (hist (exec orderly))) \<and> msg_type alice = 1 \<and> rollNo alice = 0 \<and>
   confirmation (''Bob'', 1002) \<in> set (placed (hist (exec orderly))) \<and>
   msg_type (confirmation (''Bob'', 1002)) = 2 \<and> rollNo (confirmation (''Bob'', 1002)) \<noteq> 0"
  using tag_determines_id [of orderly]
  by (simp add: exec_orderly alice_def confirmation_def placed_def)




text \<open>
  C9. The calls of the coordinator are always an initial part of the sequence: unlink
  the stale queue, open a queue of capacity 10, fork the frontend, the database and the
  logger, wait three times, close, unlink. When the queue was opened, the forks
  succeeded and the three children terminated, whatever their statuses, the sequence
  runs up to the close, and to the final unlink when the close succeeded. The
  coordinator reaches the close only then: while a child has not terminated it stays in
  \<open>wait\<close> and does not exit. A worker, in any state, stands at a send or at a receive
  or has exited, never at a call that creates or removes the queue; once it has exited
  it does nothing, and a step of it leaves the queue as it is, takes the head off it
  (at a receive), or appends one message to it (at a send).
\<close>

theorem lifecycle_order:
  "prefix (fst (main c status)) full_lifecycle \<and>
   (open_ok c \<and> fork_ok c Frontend \<and> fork_ok c Database \<and> fork_ok c Logger \<and>
    status Frontend \<noteq> None \<and> status Database \<noteq> None \<and> status Logger \<noteq> None \<longrightarrow>
      fst (main c status) = (if close_ok c then full_lifecycle else butlast full_lifecycle)) \<and>
   (MqClose \<in> set (fst (main c status)) \<longleftrightarrow>
      open_ok c \<and> fork_ok c Frontend \<and> fork_ok c Database \<and> fork_ok c Logger \<and>
      status Frontend \<noteq> None \<and> status Database \<noteq> None \<and> status Logger \<noteq> None) \<and>
   (open_ok c \<and> fork_ok c Frontend \<and> fork_ok c Database \<and> fork_ok c Logger \<and>
    (status Frontend = None \<or> status Database = None \<or> status Logger = None) \<longrightarrow>
      snd (main c status) = None \<and> last (fst (main c status)) = Wait) \<and>
   worker_call s w \<in> {None, Some MqSend, Some MqReceive} \<and>
   (worker_call s w = None \<longrightarrow> step s (w, ok) = s) \<and>
   (worker_call s w = Some MqReceive \<longrightarrow>
      queue (step s (w, ok)) = queue s \<or> (\<exists>m. queue s = m # queue (step s (w, ok)))) \<and>
   (worker_call s w = Some MqSend \<longrightarrow>
      queue (step s (w, ok)) = queue s \<or> (\<exists>m. queue (step s (w, ok)) = queue s @ [m]))"
proof (intro conjI)
  show "prefix (fst (main c status)) full_lifecycle"
    by (rule main_prefix)
  show "open_ok c \<and> fork_ok c Frontend \<and> fork_ok c Database \<and> fork_ok c Logger \<and>
    status Frontend \<noteq> None \<and> status Database \<noteq> None \<and> status Logger \<noteq> None \<longrightarrow>
      fst (main c status) = (if close_ok c then full_lifecycle else butlast full_lifecycle)"
    using main_complete [of c status] by blast
  show "MqClose \<in> set (fst (main c status)) \<longleftrightarrow>
      open_ok c \<and> fork_ok c Frontend \<and> fork_ok c Database \<and> fork_ok c Logger \<and>
      status Frontend \<noteq> None \<and> status Database \<noteq> None \<and> status Logger \<noteq> None"
    by (rule main_blocks)
  show "open_ok c \<and> fork_ok c Frontend \<and> fork_ok c Database \<and> fork_ok c Logger \<and>
    (status Frontend = None \<or> status Database = None \<or> status Logger = None) \<longrightarrow>
      snd (main c status) = None \<and> last (fst (main c status)) = Wait"
    using main_waiting [of c status] by blast
  show "worker_call s w \<in> {None, Some MqSend, Some MqReceive}"
    by (rule worker_call_kinds)
  show "worker_call s w = None \<longrightarrow> step s (w, ok) = s"
    and "worker_call s w = Some MqReceive \<longrightarrow>
      queue (step s (w, ok)) = queue s \<or> (\<exists>m. queue s = m # queue (step s (w, ok)))"
    and "worker_call s w = Some MqSend \<longrightarrow>
      queue (step s (w, ok)) = queue s \<or> (\<exists>m. queue (step s (w, ok)) = queue s @ [m])"
    using worker_step_effect [of s w ok] by blast+
qed

theorem lifecycle_order_witness:
  "fst (main all_ok (\<lambda>w. Some 1)) =
     [MqUnlink, MqOpen 10, Fork Frontend, Fork Database, Fork Logger, Wait, Wait, Wait,
      MqClose, MqUnlink] \<and>
   fst (main (all_ok\<lparr>close_ok := False\<rparr>) (exits (exec orderly))) =
     [MqUnlink, MqOpen 10, Fork Frontend, Fork Database, Fork Logger, Wait, Wait, Wait,
      MqClose] \<and>
   exits (exec requeue_fails) = (\<lambda>w. None) \<and>
   main all_ok (exits (exec requeue_fails)) =
     ([MqUnlink, MqOpen 10, Fork Frontend, Fork Database, Fork Logger, Wait], None) \<and>
   worker_call (exec orderly) Database = None \<and>
   step (exec orderly) (Database, True) = exec orderly \<and>
   worker_call (exec requeue_fails) Frontend = Some MqSend \<and>
   queue (step (exec requeue_fails) (Frontend, True)) =
     queue (exec requeue_fails) @ [\<lparr>msg_type = 1, studentName = ''Bob'', rollNo = 0\<rparr>] \<and>
   worker_call (exec [(Frontend, True)]) Logger = Some MqReceive \<and>
   queue (exec [(Frontend, True)]) = alice # queue (step (exec [(Frontend, True)]) (Logger, True))"
proof -
  have e: "exits (exec requeue_fails) = (\<lambda>w. None)"
    by (rule ext)
       (simp add: exec_requeue_fails exits_def frontend_exit_def database_exit_def
          logger_exit_def split: worker.splits)
  have m: "main all_ok (\<lambda>w. None) =
      ([MqUnlink, MqOpen 10, Fork Frontend, Fork Database, Fork Logger, Wait], None)"
    by (simp add: main_def all_ok_def mq_maxmsg_def)
  have f: "exec [(Frontend, True)] =
      \<lparr>queue = [alice],
       fe = \<lparr>idx = 1, fe_pc = FeSend \<lparr>msg_type = 1, studentName = ''Bob'', rollNo = 0\<rparr>\<rparr>,
       db = \<lparr>processedCount = 0, db_pc = DbReceive, assigned = []\<rparr>,
       lg = \<lparr>loggedCount = 0, lg_pc = LgReceive, logged = []\<rparr>,
       hist = [(FrontendSend, alice)]\<rparr>"
    by (simp add: run_simps alice_def)
  have w: "worker_call (exec orderly) Database = None"
      "worker_call (exec requeue_fails) Frontend = Some MqSend"
      "worker_call (exec [(Frontend, True)]) Logger = Some MqReceive"
    by (simp_all add: exec_orderly exec_requeue_fails f worker_call_def database_call_def
        frontend_call_def logger_call_def)
  have q: "queue (step (exec requeue_fails) (Frontend, True)) =
      queue (exec requeue_fails) @ [\<lparr>msg_type = 1, studentName = ''Bob'', rollNo = 0\<rparr>]"
      "queue (exec [(Frontend, True)]) = alice # queue (step (exec [(Frontend, True)]) (Logger, True))"
    by (simp_all add: exec_requeue_fails f frontend_step_def logger_step_def mq_send_def
        mq_receive_def mq_maxmsg_def frontend_loop_def studentCount_def students_def alice_def)
  from e m w q
    lifecycle_order [of all_ok "\<lambda>w. Some 1" "exec orderly" Database True]
    lifecycle_order [of "all_ok\<lparr>close_ok := False\<rparr>" "exits (exec orderly)"
      "exec requeue_fails" Frontend True]
    lifecycle_order [of all_ok "\<lambda>w. None" "exec [(Frontend, True)]" Logger True]
  show ?thesis
    by (simp add: all_ok_def full_lifecycle_def mq_maxmsg_def exec_orderly exits_def
        frontend_exit_def database_exit_def logger_exit_def)
qed

text \<open>
  C10. When the queue was opened, the forks succeeded and all three workers exited with
  status 0, \<open>main\<close> still exits with status 1 if \<open>mq_close\<close> or the final
  \<open>mq_unlink\<close> fails. The outcome of the first \<open>mq_unlink\<close> changes nothing.
\<close>

theorem teardown_failure_reported:
  "(open_ok c \<and> fork_ok c Frontend \<and> fork_ok c Database \<and> fork_ok c Logger \<and>
    status Frontend = Some 0 \<and> status Database = Some 0 \<and> status Logger = Some 0 \<and>
    (\<not> close_ok c \<or> \<not> unlink_ok c) \<longrightarrow> snd (main c status) = Some 1) \<and>
   main (c\<lparr>stale_unlink_ok := b\<rparr>) status = main c status"
  by (auto simp: main_def Let_def)

theorem teardown_failure_reported_witness:
  "logged (lg (exec orderly)) = [(1001, ''Alice''), (1002, ''Bob''), (1003, ''Charlie'')] \<and>
   exits (exec orderly) = (\<lambda>w. Some 0) \<and>
   snd (main (all_ok\<lparr>unlink_ok := False\<rparr>) (exits (exec orderly))) = Some 1 \<and>
   snd (main (all_ok\<lparr>close_ok := False\<rparr>) (exits (exec orderly))) = Some 1 \<and>
   snd (main (all_ok\<lparr>stale_unlink_ok := False\<rparr>) (exits (exec orderly))) = Some 0"
proof -
  have e: "exits (exec orderly) = (\<lambda>w. Some 0)"
    by (rule ext) (simp add: exec_orderly exits_def frontend_exit_def database_exit_def
        logger_exit_def split: worker.splits)
  have ok: "snd (main all_ok (\<lambda>w. Some 0)) = Some 0"
    by (simp add: main_def all_ok_def)
  from e ok teardown_failure_reported [of "all_ok\<lparr>unlink_ok := False\<rparr>" "\<lambda>w. Some 0" True]
    teardown_failure_reported [of "all_ok\<lparr>close_ok := False\<rparr>" "\<lambda>w. Some 0" True]
    teardown_failure_reported [of all_ok "\<lambda>w. Some 0" False]
  show ?thesis by (simp add: all_ok_def exec_orderly)
qed

end
